theory Spec2Isabelle
  imports Main "HOL-Library.Word" "HOL-Library.Signed_Division" "HOL-Library.Multiset"
begin

section \<open>SchedulerUtils.h: connection handles and statistical reducers\<close>

text \<open>
  A shallow embedding of \<^verbatim>\<open>services/surfaceflinger/Scheduler/SchedulerUtils.h\<close>.
  The fixed-width types of the header are words: \<^verbatim>\<open>int64_t\<close> is a 64-bit word read
  with \<open>sint\<close>, \<^verbatim>\<open>int\<close> a 32-bit word read with \<open>sint\<close>, \<^verbatim>\<open>uintptr_t\<close> and
  \<^verbatim>\<open>size_t\<close> 64-bit words read with \<open>unat\<close> (the LP64 targets of the platform).
  Signed arithmetic is two's complement and wraps around, which is what the generated
  code does; the language standard leaves the overflowing cases undefined.
  A \<^verbatim>\<open>std::vector<int64_t>\<close> is a list of 64-bit words, and the templates
  \<^verbatim>\<open>calculate_mean\<close> and \<^verbatim>\<open>calculate_mode\<close> are taken at that container type.
\<close>

type_synonym int64_t = "64 word"
type_synonym int32_t = "32 word"
type_synonym uintptr_t = "64 word"
type_synonym size_t = "64 word"

text \<open>
  Operations whose behaviour the language leaves undefined are branches of the model
  that return an error: a division by zero, and dereferencing the end iterator.
\<close>

datatype error = DivisionByZero | DereferenceEnd

subsection \<open>ConnectionHandle\<close>

text \<open>
  \<^verbatim>\<open>struct ConnectionHandle { Id id = INVALID_ID; explicit operator bool() const; }\<close>
  with \<^verbatim>\<open>Id = std::uintptr_t\<close> and \<^verbatim>\<open>INVALID_ID = static_cast<Id>(-1)\<close>.
  The field is called \<open>handle_id\<close> here, \<open>id\<close> being the identity function of HOL.
\<close>

record ConnectionHandle =
  handle_id :: uintptr_t

definition INVALID_ID :: uintptr_t where
  "INVALID_ID = - 1"

definition default_handle :: ConnectionHandle where
  "default_handle = \<lparr>handle_id = INVALID_ID\<rparr>"

definition operator_bool :: "ConnectionHandle \<Rightarrow> bool" where
  "operator_bool h = (handle_id h \<noteq> INVALID_ID)"

text \<open>\<^verbatim>\<open>operator==(ConnectionHandle lhs, ConnectionHandle rhs)\<close>: compares the ids.\<close>

definition operator_eq :: "ConnectionHandle \<Rightarrow> ConnectionHandle \<Rightarrow> bool" where
  "operator_eq lhs rhs = (handle_id lhs = handle_id rhs)"

text \<open>
  \<^verbatim>\<open>std::hash<ConnectionHandle>::operator()\<close> forwards to the standard library's
  \<^verbatim>\<open>std::hash<std::uintptr_t>\<close>, which the header does not define: it is the
  parameter \<open>hash_id\<close>.
\<close>

definition hash_handle :: "(uintptr_t \<Rightarrow> size_t) \<Rightarrow> ConnectionHandle \<Rightarrow> size_t" where
  "hash_handle hash_id handle = hash_id (handle_id handle)"

subsection \<open>calculate_mean\<close>

text \<open>
  \<^verbatim>\<open>std::accumulate(first, last, init)\<close>: the loop \<^verbatim>\<open>for (; first != last; ++first)
  init = init + *first;\<close> in the value type \<^verbatim>\<open>V = int64_t\<close>.
\<close>

primrec accumulate :: "int64_t list \<Rightarrow> int64_t \<Rightarrow> int64_t" where
  "accumulate [] init = init"
| "accumulate (x # xs) init = accumulate xs (init + x)"

text \<open>
  The division of two \<^verbatim>\<open>int64_t\<close> truncates towards zero; a zero divisor is
  undefined behaviour and is the error branch. (The one quotient that does not fit,
  \<open>- 2^63\<close> by \<open>- 1\<close>, wraps; \<^verbatim>\<open>calculate_mean\<close> divides by a size, which is
  not negative.)
\<close>

definition int64_div :: "int64_t \<Rightarrow> int64_t \<Rightarrow> error + int64_t" where
  "int64_div a b =
     (if b = 0 then Inl DivisionByZero else Inr (word_of_int (sint a sdiv sint b)))"

text \<open>
  \<^verbatim>\<open>V sum = std::accumulate(v.begin(), v.end(), static_cast<V>(0));
  return sum / static_cast<V>(v.size());\<close>
  The size is converted from \<^verbatim>\<open>size_t\<close> to \<^verbatim>\<open>int64_t\<close>, which keeps its low 64
  bits.
\<close>

definition calculate_mean :: "int64_t list \<Rightarrow> error + int64_t" where
  "calculate_mean v =
     (let sum = accumulate v 0
      in int64_div sum (word_of_nat (length v)))"

text \<open>
  A vector of \<^verbatim>\<open>int64_t\<close> holds fewer than \<open>2 ^ 63\<close> elements (its \<^verbatim>\<open>max_size()\<close> is
  bounded by the address space divided by the element size), so its size converts to a
  positive \<^verbatim>\<open>int64_t\<close> without loss.
\<close>

definition is_vector :: "int64_t list \<Rightarrow> bool" where
  "is_vector v \<longleftrightarrow> length v < 2 ^ 63"

subsection \<open>calculate_mode\<close>

text \<open>
  \<^verbatim>\<open>std::unordered_map<int64_t, int> counts\<close> is modelled by its list of nodes, in the
  order in which \<^verbatim>\<open>begin()\<close> to \<^verbatim>\<open>end()\<close> visits them. Each node is a pair of a
  key and its \<^verbatim>\<open>int\<close> counter.
\<close>

type_synonym counts_map = "(int64_t \<times> int32_t) list"

text \<open>
  Where the container puts the node of a new key, and how it rearranges the other nodes
  when it rehashes, is the standard library's business and not in the header: it is
  the parameter \<open>link\<close>, which takes the nodes and an absent key and returns the nodes
  with a value-initialised node for the key among them. All that is asked of it is that
  it keeps every node it had and adds exactly that one.
\<close>

definition valid_link :: "(counts_map \<Rightarrow> int64_t \<Rightarrow> counts_map) \<Rightarrow> bool" where
  "valid_link link \<longleftrightarrow>
     (\<forall>m key. key \<notin> fst ` set m \<longrightarrow> mset (link m key) = add_mset (key, 0) (mset m))"

text \<open>
  Two containers that satisfy it: one that links each new node at the head of its node
  list, so that the traversal visits the keys in the reverse of the order in which they
  were first inserted, and one that links it at the tail.
\<close>

definition link_front :: "counts_map \<Rightarrow> int64_t \<Rightarrow> counts_map" where
  "link_front m key = (key, 0) # m"

definition link_back :: "counts_map \<Rightarrow> int64_t \<Rightarrow> counts_map" where
  "link_back m key = m @ [(key, 0)]"

text \<open>The \<^verbatim>\<open>++\<close> on the counter of the node that holds the key.\<close>

primrec increment :: "counts_map \<Rightarrow> int64_t \<Rightarrow> counts_map" where
  "increment [] key = []"
| "increment (e # m) key =
     (if fst e = key then (fst e, snd e + 1) # m else e # increment m key)"

text \<open>
  \<^verbatim>\<open>counts[value]++\<close>: \<^verbatim>\<open>operator[]\<close> finds the node of the key, inserting a
  value-initialised one when there is none, and the counter of that node is incremented.
\<close>

definition subscript_increment ::
  "(counts_map \<Rightarrow> int64_t \<Rightarrow> counts_map) \<Rightarrow> counts_map \<Rightarrow> int64_t \<Rightarrow> counts_map" where
  "subscript_increment link counts value =
     (if value \<in> fst ` set counts then increment counts value
      else increment (link counts value) value)"

text \<open>\<^verbatim>\<open>for (int64_t value : v) { counts[value]++; }\<close>\<close>

primrec count_values ::
  "(counts_map \<Rightarrow> int64_t \<Rightarrow> counts_map) \<Rightarrow> int64_t list \<Rightarrow> counts_map \<Rightarrow> counts_map" where
  "count_values link [] counts = counts"
| "count_values link (value # v) counts =
     count_values link v (subscript_increment link counts value)"

text \<open>
  \<^verbatim>\<open>[](ValueType l, ValueType r) { return l.second <= r.second; }\<close>: a signed
  comparison of two \<^verbatim>\<open>int\<close> counters.
\<close>

definition compareCounts :: "int64_t \<times> int32_t \<Rightarrow> int64_t \<times> int32_t \<Rightarrow> bool" where
  "compareCounts l r \<longleftrightarrow> snd l \<le>s snd r"

text \<open>
  \<^verbatim>\<open>std::max_element(first, last, comp)\<close> is the loop of the standard libraries:
  \<^verbatim>\<open>if (first == last) return last; largest = first;
  while (++first != last) if (comp(*largest, *first)) largest = first;
  return largest;\<close>
  On an empty range it returns the end iterator, here \<open>None\<close>. The comparison is
  called \<open>cmp\<close>, \<open>comp\<close> being the composition of functions in HOL.
\<close>

primrec max_element_loop :: "('a \<Rightarrow> 'a \<Rightarrow> bool) \<Rightarrow> 'a \<Rightarrow> 'a list \<Rightarrow> 'a" where
  "max_element_loop cmp largest [] = largest"
| "max_element_loop cmp largest (x # xs) =
     max_element_loop cmp (if cmp largest x then x else largest) xs"

definition max_element :: "('a \<Rightarrow> 'a \<Rightarrow> bool) \<Rightarrow> 'a list \<Rightarrow> 'a option" where
  "max_element cmp xs =
     (case xs of [] \<Rightarrow> None | first # rest \<Rightarrow> Some (max_element_loop cmp first rest))"

text \<open>\<^verbatim>\<open>static_cast<int>\<close> of an \<^verbatim>\<open>int64_t\<close> keeps the low 32 bits.\<close>

definition static_cast_int :: "int64_t \<Rightarrow> int32_t" where
  "static_cast_int x = ucast x"

text \<open>
  The return type of \<^verbatim>\<open>calculate_mode\<close> is deduced from \<^verbatim>\<open>return 0;\<close> and is
  \<^verbatim>\<open>int\<close>. Dereferencing the iterator that \<^verbatim>\<open>max_element\<close> returns is the error
  branch when that iterator is the end.
\<close>

definition calculate_mode ::
  "(counts_map \<Rightarrow> int64_t \<Rightarrow> counts_map) \<Rightarrow> int64_t list \<Rightarrow> error + int32_t" where
  "calculate_mode link v =
     (if v = [] then Inr 0
      else (let counts = count_values link v []
            in case max_element compareCounts counts of
                 None \<Rightarrow> Inl DereferenceEnd
               | Some e \<Rightarrow> Inr (static_cast_int (fst e))))"

text \<open>
  A caller that stores the result in an \<^verbatim>\<open>int64_t\<close> gets the \<^verbatim>\<open>int\<close> sign-extended.
\<close>

definition to_int64 :: "int32_t \<Rightarrow> int64_t" where
  "to_int64 x = scast x"

subsection \<open>calculate_median\<close>

text \<open>
  Modelled from the spec: the header only declares
  \<^verbatim>\<open>int64_t calculate_median(std::vector<int64_t>* v)\<close>; its body and the partial
  reordering it calls are not among the sources. The spec asks for a partial reordering
  of the sequence after which position \<open>n\<close> holds the value that a full sort would put
  there, without sorting the whole sequence. \<open>nth_element\<close> is such a reordering, by
  selection around a pivot: the elements below the pivot go before it, the others
  after it, and only the side that contains position \<open>n\<close> is reordered further. The
  order is the signed one of \<^verbatim>\<open>int64_t\<close>.
\<close>

fun nth_element :: "int64_t list \<Rightarrow> nat \<Rightarrow> int64_t list" where
  "nth_element [] n = []"
| "nth_element (pivot # xs) n =
     (if n < length (filter (\<lambda>x. x <s pivot) xs)
      then nth_element (filter (\<lambda>x. x <s pivot) xs) n
             @ pivot # filter (\<lambda>x. \<not> x <s pivot) xs
      else if n = length (filter (\<lambda>x. x <s pivot) xs)
      then filter (\<lambda>x. x <s pivot) xs @ pivot # filter (\<lambda>x. \<not> x <s pivot) xs
      else filter (\<lambda>x. x <s pivot) xs @ pivot #
             nth_element (filter (\<lambda>x. \<not> x <s pivot) xs)
               (n - length (filter (\<lambda>x. x <s pivot) xs) - 1))"

text \<open>
  Modelled from the spec: the body of \<^verbatim>\<open>calculate_median\<close>, which is not among the
  sources. On the empty sequence it returns 0; otherwise it reorders the sequence as
  above for the position \<open>n = size div 2\<close> and returns the element at that position.
  The function works on the caller's vector in place: the model returns the result
  together with the vector as the call leaves it.
\<close>

definition calculate_median :: "int64_t list \<Rightarrow> int64_t \<times> int64_t list" where
  "calculate_median v =
     (if v = [] then (0, v)
      else (let n = length v div 2; v' = nth_element v n in (v' ! n, v')))"

subsection \<open>Calls and the caller's vector\<close>

text \<open>
  A call of a reducer on a vector of the caller, as a step from the memory that holds
  the vector before the call to the result and that memory after the call. The two
  templates take \<^verbatim>\<open>const T& v\<close> and reach the elements through its iterators only, from
  \<^verbatim>\<open>v.begin()\<close> to \<^verbatim>\<open>v.end()\<close>: \<^verbatim>\<open>std::accumulate\<close> reads \<^verbatim>\<open>*first\<close> at each
  position, and the range-for of \<^verbatim>\<open>calculate_mode\<close> copies the element at each position
  into \<^verbatim>\<open>value\<close>. \<open>read_at\<close> is that access: it yields the element at a position and the
  memory. The map that \<^verbatim>\<open>calculate_mode\<close> writes is a local of the function. The call of
  \<^verbatim>\<open>calculate_median\<close>, which takes a pointer to the vector and reorders it, is
  \<open>calculate_median\<close> itself.
\<close>

definition read_at :: "nat \<Rightarrow> int64_t list \<Rightarrow> int64_t \<times> int64_t list" where
  "read_at i mem = (mem ! i, mem)"

primrec accumulate_over ::
  "nat list \<Rightarrow> int64_t \<Rightarrow> int64_t list \<Rightarrow> int64_t \<times> int64_t list" where
  "accumulate_over [] init mem = (init, mem)"
| "accumulate_over (i # positions) init mem =
     (case read_at i mem of (x, mem') \<Rightarrow> accumulate_over positions (init + x) mem')"

definition call_calculate_mean :: "int64_t list \<Rightarrow> (error + int64_t) \<times> int64_t list" where
  "call_calculate_mean mem =
     (case accumulate_over [0..<length mem] 0 mem of
        (s, mem') \<Rightarrow> (int64_div s (word_of_nat (length mem')), mem'))"

primrec count_values_over ::
  "(counts_map \<Rightarrow> int64_t \<Rightarrow> counts_map) \<Rightarrow> nat list \<Rightarrow> counts_map \<Rightarrow> int64_t list
     \<Rightarrow> counts_map \<times> int64_t list" where
  "count_values_over link [] counts mem = (counts, mem)"
| "count_values_over link (i # positions) counts mem =
     (case read_at i mem of (value, mem') \<Rightarrow>
        count_values_over link positions (subscript_increment link counts value) mem')"

definition call_calculate_mode ::
  "(counts_map \<Rightarrow> int64_t \<Rightarrow> counts_map) \<Rightarrow> int64_t list
     \<Rightarrow> (error + int32_t) \<times> int64_t list" where
  "call_calculate_mode link mem =
     (if mem = [] then (Inr 0, mem)
      else (case count_values_over link [0..<length mem] [] mem of
              (counts, mem') \<Rightarrow>
                (case max_element compareCounts counts of
                   None \<Rightarrow> Inl DereferenceEnd
                 | Some e \<Rightarrow> Inr (static_cast_int (fst e)), mem')))"

subsection \<open>Auxiliary notions for the proofs\<close>

text \<open>The counter that a node list holds for a key, 0 when the key has no node.\<close>

definition counter :: "counts_map \<Rightarrow> int64_t \<Rightarrow> int32_t" where
  "counter m k = (case map_of m k of None \<Rightarrow> 0 | Some c \<Rightarrow> c)"

section \<open>Properties\<close>

subsection \<open>ConnectionHandle\<close>

text \<open>
  C5: for all handles \<open>a\<close> and \<open>b\<close>, \<open>a == b\<close> holds iff their ids are equal, and
  \<open>a == b\<close> implies that their hashes are equal, whatever function the standard library
  uses to hash an id.
\<close>

theorem handle_eq_hash:
  "(operator_eq a b \<longleftrightarrow> handle_id a = handle_id b) \<and>
   (operator_eq a b \<longrightarrow> hash_handle hash_id a = hash_handle hash_id b)"
  by (simp add: operator_eq_def hash_handle_def)

theorem handle_eq_hash_witness:
  "operator_eq \<lparr>handle_id = 42\<rparr> \<lparr>handle_id = 42\<rparr> \<and>
   hash_handle (\<lambda>x. x + 1) \<lparr>handle_id = 42\<rparr> = hash_handle (\<lambda>x. x + 1) \<lparr>handle_id = 42\<rparr>"
  using handle_eq_hash [of "\<lparr>handle_id = 42\<rparr>" "\<lparr>handle_id = 42\<rparr>" "\<lambda>x. x + 1"]
  by (simp add: operator_eq_def)

subsection \<open>calculate_mean\<close>

lemma signed_take_bit_add_right:
  "signed_take_bit n (a + signed_take_bit n b) = signed_take_bit n (a + b)" for a b :: int
  by (metis signed_take_bit_add signed_take_bit_of_0 add_0)

lemma sint_size: "n < 2 ^ 63 \<Longrightarrow> sint (word_of_nat n :: 64 word) = int n"
proof -
  assume "n < 2 ^ 63"
  then have "int n < 2 ^ 63" by (metis of_nat_less_iff of_nat_numeral of_nat_power)
  moreover have "sint (word_of_int (int n) :: 64 word) = signed_take_bit 63 (int n)"
    by (simp only: sint_sbintrunc') simp
  ultimately show ?thesis by (simp add: signed_take_bit_int_eq_self_iff)
qed

lemma size_nonzero: "0 < n \<Longrightarrow> n < 2 ^ 63 \<Longrightarrow> (word_of_nat n :: 64 word) \<noteq> 0"
  using sint_size [of n] by auto

lemma sdiv_pos_divisor:
  "0 < n \<Longrightarrow> s sdiv n = (if 0 \<le> s then s div n else - ((- s) div n))" for s n :: int
  by (auto simp: signed_divide_int_def sgn_if)

lemma sdiv_bounds:
  "0 < n \<Longrightarrow> - (2 ^ 63) \<le> s \<Longrightarrow> s < 2 ^ 63 \<Longrightarrow> - (2 ^ 63) \<le> s sdiv n \<and> s sdiv n < 2 ^ 63"
  for s n :: int
proof -
  assume n: "0 < n" and lo: "- (2 ^ 63) \<le> s" and hi: "s < 2 ^ 63"
  show ?thesis
  proof (cases "0 \<le> s")
    case True
    then have "0 \<le> s div n" "s div n \<le> s"
      using n zdiv_mono2 [of s 1 n] by (simp_all add: pos_imp_zdiv_nonneg_iff)
    with True n hi show ?thesis by (simp add: sdiv_pos_divisor)
  next
    case False
    then have "0 \<le> (- s) div n" "(- s) div n \<le> - s"
      using n zdiv_mono2 [of "- s" 1 n] by (simp_all add: pos_imp_zdiv_nonneg_iff)
    with False n lo show ?thesis by (simp add: sdiv_pos_divisor)
  qed
qed

lemma sint_int64_div:
  assumes "0 < sint b"
  shows "\<exists>r. int64_div a b = Inr r \<and> sint r = sint a sdiv sint b"
proof -
  have b: "b \<noteq> 0" using assms by auto
  have "- (2 ^ 63) \<le> sint a" "sint a < 2 ^ 63"
    using sint_ge [of a] sint_lt [of a] by simp_all
  then have "- (2 ^ 63) \<le> sint a sdiv sint b \<and> sint a sdiv sint b < 2 ^ 63"
    using assms by (intro sdiv_bounds)
  then have "sint (word_of_int (sint a sdiv sint b) :: 64 word) = sint a sdiv sint b"
    by (simp add: sint_sbintrunc' signed_take_bit_int_eq_self_iff)
  with b show ?thesis by (simp add: int64_div_def)
qed

lemma accumulate_sum_list: "accumulate xs init = init + sum_list xs"
  by (induction xs arbitrary: init) (simp_all add: add.assoc)

lemma sint_sum_list:
  "sint (sum_list xs :: 64 word) = signed_take_bit 63 (sum_list (map sint xs))"
proof (induction xs)
  case Nil
  then show ?case by simp
next
  case (Cons x xs)
  have "sint (x + sum_list xs) = signed_take_bit 63 (sint x + sint (sum_list xs))"
    by (simp add: sint_word_ariths)
  also have "\<dots> = signed_take_bit 63 (sint x + sum_list (map sint xs))"
    unfolding Cons.IH by (rule signed_take_bit_add_right)
  finally show ?case by simp
qed

lemma calculate_mean_sint:
  assumes "v \<noteq> []" and "is_vector v"
  shows "\<exists>r. calculate_mean v = Inr r \<and>
    sint r = signed_take_bit 63 (sum_list (map sint v)) sdiv int (length v)"
proof -
  have n: "sint (word_of_nat (length v) :: 64 word) = int (length v)"
    using assms(2) by (simp add: is_vector_def sint_size)
  have "0 < sint (word_of_nat (length v) :: 64 word)"
    using assms(1) by (simp add: n)
  from sint_int64_div [OF this, of "accumulate v 0"] show ?thesis
    by (simp add: calculate_mean_def n accumulate_sum_list sint_sum_list)
qed

text \<open>
  C4: for every non-empty vector, \<open>calculate_mean\<close> returns a value, and that value is
  the sum of the elements, computed in 64-bit two's complement (the mathematical sum of
  the signed elements reduced to 64 bits), divided by the number of elements with
  truncation towards zero (\<open>sdiv\<close> on \<open>int\<close>).
\<close>

theorem calculate_mean_truncates:
  assumes "v \<noteq> []" and "is_vector v"
  shows "\<exists>r. calculate_mean v = Inr r \<and>
    sint r = signed_take_bit 63 (sum_list (map sint v)) sdiv int (length v)"
  using assms by (rule calculate_mean_sint)

theorem calculate_mean_truncates_witness:
  "[- 7, 0] \<noteq> ([] :: int64_t list) \<and> is_vector [- 7, 0] \<and>
   (\<exists>r. calculate_mean [- 7, 0] = Inr r \<and> sint r = - 3)"
  using calculate_mean_truncates [of "[- 7, 0]"]
  by (simp add: is_vector_def signed_divide_int_def)

text \<open>
  C10: the division of \<open>calculate_mean\<close> has the size of the vector as its divisor. On a
  non-empty vector the divisor is not zero and the division-by-zero branch is not taken;
  on the empty vector the divisor is zero and the call divides by zero, there being no
  guard.
\<close>

theorem mean_division_by_zero:
  assumes "is_vector v"
  shows "calculate_mean v = int64_div (accumulate v 0) (word_of_nat (length v)) \<and>
    (v \<noteq> [] \<longrightarrow> (word_of_nat (length v) :: int64_t) \<noteq> 0
        \<and> calculate_mean v \<noteq> Inl DivisionByZero) \<and>
    calculate_mean [] = Inl DivisionByZero"
  using assms size_nonzero [of "length v"]
  by (auto simp: calculate_mean_def int64_div_def is_vector_def)

theorem mean_division_by_zero_witness:
  "is_vector [1, 2] \<and> [1, 2] \<noteq> ([] :: int64_t list) \<and>
   calculate_mean [1, 2] \<noteq> Inl DivisionByZero \<and> calculate_mean [] = Inl DivisionByZero"
  using mean_division_by_zero [of "[1, 2]"] by (simp add: is_vector_def int64_div_def)

text \<open>
  C7, as stated, fails: the mean of \<open>[2^62, 2^62]\<close> is not \<open>2^62\<close>. The sum \<open>2^63\<close>
  does not fit in an \<^verbatim>\<open>int64_t\<close>; in two's complement it is \<open>- 2^63\<close>, and the result
  is \<open>- 2^62\<close>.
\<close>

theorem mean_constant_counterexample:
  "calculate_mean [0x4000000000000000, 0x4000000000000000] = Inr (- 0x4000000000000000) \<and>
   calculate_mean [0x4000000000000000, 0x4000000000000000] \<noteq> Inr 0x4000000000000000"
  by (simp add: calculate_mean_def int64_div_def signed_divide_int_def)

text \<open>
  C7, amended: for every \<open>k\<close> and every \<open>n \<ge> 1\<close> such that the sum \<open>n * k\<close> fits in an
  \<^verbatim>\<open>int64_t\<close>, the mean of the vector of \<open>n\<close> copies of \<open>k\<close> is \<open>k\<close>.
\<close>

theorem mean_constant:
  assumes "0 < n" and "n < 2 ^ 63"
    and "- (2 ^ 63) \<le> int n * sint k" and "int n * sint k < 2 ^ 63"
  shows "calculate_mean (replicate n k) = Inr k"
proof -
  have v: "replicate n k \<noteq> []" "is_vector (replicate n k)"
    using assms(1,2) by (simp_all add: is_vector_def)
  from calculate_mean_sint [OF v] obtain r where
    r: "calculate_mean (replicate n k) = Inr r"
    "sint r = signed_take_bit 63 (sum_list (map sint (replicate n k)))
       sdiv int (length (replicate n k))"
    by blast
  have "sum_list (map sint (replicate n k)) = int n * sint k"
    by (simp add: sum_list_replicate)
  moreover have "signed_take_bit 63 (int n * sint k) = int n * sint k"
    using assms(3,4) by (simp add: signed_take_bit_int_eq_self_iff)
  moreover have "(int n * sint k) sdiv int n = sint k"
  proof -
    have "sgn (int n * sint k) = sgn (sint k)" "sgn (int n) = 1"
      using assms(1) by (simp_all add: sgn_mult)
    moreover have "\<bar>int n * sint k\<bar> div \<bar>int n\<bar> = \<bar>sint k\<bar>"
      using assms(1) by (simp add: abs_mult)
    ultimately show ?thesis
      unfolding signed_divide_int_def by (simp add: mult_sgn_abs)
  qed
  ultimately have "sint r = sint k" using r(2) by simp
  then have "r = k" by (rule signed_word_eqI)
  with r(1) show ?thesis by simp
qed

theorem mean_constant_witness:
  "(0 :: nat) < 3 \<and> (3 :: nat) < 2 ^ 63 \<and> - (2 ^ 63) \<le> int 3 * sint (- 5 :: int64_t) \<and>
   int 3 * sint (- 5 :: int64_t) < 2 ^ 63 \<and> calculate_mean (replicate 3 (- 5)) = Inr (- 5)"
  using mean_constant [of 3 "- 5"] by simp

subsection \<open>calculate_median\<close>

lemma mset_nth_element: "mset (nth_element xs n) = mset xs"
proof (induction xs n rule: nth_element.induct)
  case (1 n)
  then show ?case by simp
next
  case (2 pivot xs n)
  have split:
    "mset (filter (\<lambda>x. x <s pivot) xs) + mset (filter (\<lambda>x. \<not> x <s pivot) xs) = mset xs"
    by simp
  show ?case
    using 2 split by (auto simp del: mset_filter simp: ac_simps)
qed

lemma length_nth_element: "length (nth_element xs n) = length xs"
  by (metis mset_nth_element size_mset)

lemma set_nth_element: "set (nth_element xs n) = set xs"
  by (metis mset_nth_element set_mset_mset)

text \<open>
  After the reordering, nothing before position \<open>n\<close> is above the element at \<open>n\<close> and
  nothing after it is below.
\<close>

lemma nth_element_partition:
  "n < length xs \<Longrightarrow>
     (\<forall>x \<in> set (take n (nth_element xs n)). x \<le>s nth_element xs n ! n) \<and>
     (\<forall>x \<in> set (drop (Suc n) (nth_element xs n)). nth_element xs n ! n \<le>s x)"
proof (induction xs n rule: nth_element.induct)
  case (1 n)
  then show ?case by simp
next
  case (2 pivot xs n)
  let ?ls = "filter (\<lambda>x. x <s pivot) xs" and ?gs = "filter (\<lambda>x. \<not> x <s pivot) xs"
  consider (left) "n < length ?ls" | (mid) "n = length ?ls" | (right) "length ?ls < n"
    by linarith
  then show ?case
  proof cases
    case left
    let ?ys = "nth_element ?ls n"
    have len: "length ?ys = length ?ls" by (rule length_nth_element)
    have "?ys ! n \<in> set ?ls"
      using left len set_nth_element [of ?ls n] nth_mem [of n ?ys] by simp
    then have below: "?ys ! n <s pivot" by simp
    have ih: "(\<forall>x \<in> set (take n ?ys). x \<le>s ?ys ! n) \<and>
        (\<forall>x \<in> set (drop (Suc n) ?ys). ?ys ! n \<le>s x)"
      using "2.IH"(1) left by simp
    have gs: "\<forall>x \<in> set ?gs. ?ys ! n \<le>s x"
      using below by (auto simp: word_sle_eq word_sless_alt)
    show ?thesis
      using left len ih gs below by (auto simp: nth_append word_sle_eq word_sless_alt)
  next
    case mid
    then show ?thesis by (auto simp: nth_append word_sle_eq word_sless_alt)
  next
    case right
    let ?k = "n - length ?ls - 1"
    let ?ys = "nth_element ?gs ?k"
    have "length ?ls + length ?gs = length xs" by (rule sum_length_filter_compl)
    with right "2.prems" have k: "?k < length ?gs" by simp
    have len: "length ?ys = length ?gs" by (rule length_nth_element)
    have "?ys ! ?k \<in> set ?gs"
      using k len set_nth_element [of ?gs ?k] nth_mem [of ?k ?ys] by simp
    then have above: "\<not> ?ys ! ?k <s pivot" by simp
    have ih: "(\<forall>x \<in> set (take ?k ?ys). x \<le>s ?ys ! ?k) \<and>
        (\<forall>x \<in> set (drop (Suc ?k) ?ys). ?ys ! ?k \<le>s x)"
      using "2.IH"(2) right k by simp
    have n: "n = length ?ls + Suc ?k" using right by simp
    have nth: "(?ls @ pivot # ?ys) ! n = ?ys ! ?k"
      by (subst n) (simp add: nth_append del: nth_element.simps)
    have tk: "take n (?ls @ pivot # ?ys) = ?ls @ pivot # take ?k ?ys"
      by (subst n) (simp del: nth_element.simps)
    have dr: "drop (Suc n) (?ls @ pivot # ?ys) = drop (Suc ?k) ?ys"
      by (subst n) (simp del: nth_element.simps)
    have res: "nth_element (pivot # xs) n = ?ls @ pivot # ?ys"
      using right by simp
    show ?thesis
      unfolding res nth tk dr using ih above
      by (auto simp: word_sle_eq word_sless_alt simp del: nth_element.simps)
  qed
qed

text \<open>
  A position of a list that separates it in this way holds what sorting the list puts
  there.
\<close>

lemma sort_nth_partitioned:
  fixes ys :: "'a::linorder list"
  assumes "n < length ys"
    and "\<forall>x \<in> set (take n ys). x \<le> ys ! n"
    and "\<forall>x \<in> set (drop (Suc n) ys). ys ! n \<le> x"
  shows "sort ys ! n = ys ! n"
proof -
  let ?zs = "sort (take n ys) @ ys ! n # sort (drop (Suc n) ys)"
  have "mset ?zs = mset (take n ys @ ys ! n # drop (Suc n) ys)" by simp
  also have "\<dots> = mset ys" using assms(1) by (simp only: id_take_nth_drop [symmetric])
  finally have "mset ?zs = mset ys" .
  moreover have "sorted ?zs"
    using assms(2,3) by (auto simp: sorted_append intro: order_trans)
  ultimately have "sort ys = ?zs" by (metis properties_for_sort)
  moreover have "length (sort (take n ys)) = n" using assms(1) by simp
  ultimately show ?thesis by (metis nth_append_length)
qed

lemma nth_element_sorted:
  assumes "n < length xs"
  shows "sint (nth_element xs n ! n) = sort (map sint xs) ! n"
proof -
  let ?ys = "map sint (nth_element xs n)"
  have len: "n < length ?ys" using assms by (simp add: length_nth_element)
  have part: "\<forall>x \<in> set (take n ?ys). x \<le> ?ys ! n"
    "\<forall>x \<in> set (drop (Suc n) ?ys). ?ys ! n \<le> x"
    using nth_element_partition [OF assms] len
    by (auto simp: take_map drop_map word_sle_eq)
  have "mset ?ys = mset (map sint xs)" by (simp add: mset_nth_element)
  then have "sort (map sint xs) = sort ?ys" by (metis sorted_list_of_multiset_mset)
  with sort_nth_partitioned [OF len part] len show ?thesis by simp
qed

text \<open>
  C3: the median of the empty sequence is 0. For a non-empty sequence \<open>v\<close> of length
  \<open>n\<close>, the result is the element at index \<open>n div 2\<close> of the sequence sorted by signed
  value (for even \<open>n\<close> the upper of the two middle values; nothing is averaged); the
  vector after the call is a permutation of \<open>v\<close> and holds the result at index
  \<open>n div 2\<close>.
\<close>

theorem calculate_median_order_statistic:
  "fst (calculate_median []) = 0 \<and>
   (v \<noteq> [] \<longrightarrow>
      sint (fst (calculate_median v)) = sort (map sint v) ! (length v div 2) \<and>
      mset (snd (calculate_median v)) = mset v \<and>
      snd (calculate_median v) ! (length v div 2) = fst (calculate_median v))"
  by (simp add: calculate_median_def Let_def mset_nth_element nth_element_sorted
      del: nth_element.simps)

theorem calculate_median_order_statistic_witness:
  "[1, 2, 3, 4] \<noteq> ([] :: int64_t list) \<and>
   fst (calculate_median [1, 2, 3, 4]) = 3 \<and>
   sint (fst (calculate_median [1, 2, 3, 4])) = sort (map sint [1, 2, 3, 4 :: int64_t]) ! 2 \<and>
   mset (snd (calculate_median [1, 2, 3, 4])) = mset [1, 2, 3, 4] \<and>
   snd (calculate_median [1, 2, 3, 4]) ! 2 = fst (calculate_median [1, 2, 3, 4])"
  using calculate_median_order_statistic [of "[1, 2, 3, 4]"]
  by (simp add: calculate_median_def word_sless_alt)

subsection \<open>The counting loop of calculate_mode\<close>

lemma valid_link_front: "valid_link link_front"
  by (simp add: valid_link_def link_front_def)

lemma valid_link_back: "valid_link link_back"
  by (simp add: valid_link_def link_back_def)

lemma map_fst_increment: "map fst (increment m key) = map fst m"
  by (induction m) simp_all

lemma increment_map:
  "distinct (map fst m) \<Longrightarrow>
   increment m key = map (\<lambda>e. if fst e = key then (fst e, snd e + 1) else e) m"
proof (induction m)
  case Nil
  then show ?case by simp
next
  case (Cons e m)
  show ?case
  proof (cases "fst e = key")
    case True
    with Cons.prems have "key \<notin> fst ` set m" by simp
    then have "\<forall>e' \<in> set m. fst e' \<noteq> key" by blast
    then have "map (\<lambda>e. if fst e = key then (fst e, snd e + 1) else e) m = m"
      by (intro map_idI) simp
    with True show ?thesis by simp
  next
    case False
    with Cons show ?thesis by simp
  qed
qed

lemma valid_link_set:
  "valid_link link \<Longrightarrow> key \<notin> fst ` set m \<Longrightarrow> set (link m key) = insert (key, 0) (set m)"
  unfolding valid_link_def by (metis set_mset_add_mset_insert set_mset_mset)

lemma valid_link_distinct:
  assumes "valid_link link" and "key \<notin> fst ` set m" and "distinct (map fst m)"
  shows "distinct (map fst (link m key))"
proof -
  from assms(1,2) have "mset (link m key) = add_mset (key, 0) (mset m)"
    by (simp add: valid_link_def)
  then have "mset (map fst (link m key)) = mset (key # map fst m)"
    by (metis (no_types) fst_conv image_mset_add_mset mset.simps(2) mset_map)
  moreover have "distinct (key # map fst m)" using assms(2,3) by simp
  ultimately show ?thesis by (metis mset_eq_imp_distinct_iff)
qed

lemma map_of_increment:
  "distinct (map fst m) \<Longrightarrow> map_of (increment m key) k =
     (if k = key then map_option (\<lambda>c. c + 1) (map_of m k) else map_of m k)"
  by (induction m) (auto simp: rev_image_eqI map_of_eq_None_iff)

lemma subscript_increment_distinct:
  assumes "valid_link link" and "distinct (map fst m)"
  shows "distinct (map fst (subscript_increment link m x))"
  using assms by (simp add: subscript_increment_def map_fst_increment valid_link_distinct)

lemma subscript_increment_keys:
  assumes "valid_link link"
  shows "fst ` set (subscript_increment link m x) = insert x (fst ` set m)"
proof -
  have "fst ` set (increment t x) = fst ` set t" for t
    by (metis map_fst_increment set_map)
  then show ?thesis
    using assms by (auto simp: subscript_increment_def valid_link_set)
qed

lemma map_of_subscript_increment:
  assumes "valid_link link" and "distinct (map fst m)"
  shows "map_of (subscript_increment link m x) k =
     (if k = x then Some (counter m x + 1) else map_of m k)"
proof (cases "x \<in> fst ` set m")
  case True
  then obtain c where "map_of m x = Some c"
    by (metis map_of_eq_None_iff not_Some_eq)
  with True assms(2) show ?thesis
    by (simp add: subscript_increment_def map_of_increment counter_def)
next
  case False
  have d: "distinct (map fst (link m x))"
    using assms False by (simp add: valid_link_distinct)
  have "set (link m x) = set ((x, 0) # m)"
    using assms(1) False by (simp add: valid_link_set)
  moreover have "distinct (map fst ((x, 0) # m))" using False assms(2) by simp
  ultimately have "map_of (link m x) = map_of ((x, 0) # m)"
    using d by (metis map_of_inject_set)
  moreover have "map_of m x = None" using False by (simp add: map_of_eq_None_iff)
  ultimately show ?thesis
    using False d by (simp add: subscript_increment_def map_of_increment counter_def)
qed

text \<open>
  The invariant of the loop: the keys stay distinct, they are the keys the map started
  with and the values seen, and each counter has grown by the number of occurrences of
  its key, in 32-bit arithmetic.
\<close>

lemma count_values_inv:
  assumes "valid_link link" and "distinct (map fst m)"
  shows "distinct (map fst (count_values link v m)) \<and>
         fst ` set (count_values link v m) = fst ` set m \<union> set v \<and>
         (\<forall>k. counter (count_values link v m) k = counter m k + word_of_nat (count_list v k))"
  using assms(2)
proof (induction v arbitrary: m)
  case Nil
  then show ?case by simp
next
  case (Cons x v)
  let ?m = "subscript_increment link m x"
  have d: "distinct (map fst ?m)"
    using assms(1) Cons.prems by (rule subscript_increment_distinct)
  have c: "counter ?m k = (if k = x then counter m x + 1 else counter m k)" for k
    using map_of_subscript_increment [OF assms(1) Cons.prems, of x k]
    by (simp add: counter_def)
  from Cons.IH [OF d] show ?case
    by (auto simp: subscript_increment_keys [OF assms(1)] c)
qed

lemma count_values_entries:
  assumes "valid_link link"
  shows "set (count_values link v []) = (\<lambda>k. (k, word_of_nat (count_list v k))) ` set v"
    (is "set ?t = ?S")
proof -
  have inv: "distinct (map fst ?t)" "fst ` set ?t = set v"
    "\<And>k. counter ?t k = word_of_nat (count_list v k)"
    using count_values_inv [OF assms, of "[]" v] by (simp_all add: counter_def)
  have *: "(k, c) \<in> set ?t \<longleftrightarrow> k \<in> set v \<and> c = word_of_nat (count_list v k)" for k c
  proof
    assume h: "(k, c) \<in> set ?t"
    then have "map_of ?t k = Some c" using inv(1) by simp
    then have "counter ?t k = c" by (simp add: counter_def)
    moreover have "k \<in> set v" using h inv(2) by force
    ultimately show "k \<in> set v \<and> c = word_of_nat (count_list v k)" using inv(3) by simp
  next
    assume h: "k \<in> set v \<and> c = word_of_nat (count_list v k)"
    then have "k \<in> fst ` set ?t" using inv(2) by simp
    then obtain c' where c': "(k, c') \<in> set ?t" by force
    then have "map_of ?t k = Some c'" using inv(1) by simp
    then have "counter ?t k = c'" by (simp add: counter_def)
    with h inv(3) c' show "(k, c) \<in> set ?t" by simp
  qed
  show ?thesis using * by (auto simp: image_iff)
qed

lemma count_values_nonempty:
  assumes "valid_link link" and "v \<noteq> []"
  shows "count_values link v [] \<noteq> []"
  using count_values_entries [OF assms(1), of v] assms(2) by auto

lemma count_values_append:
  "count_values link (v @ w) m = count_values link w (count_values link v m)"
  by (induction v arbitrary: m) simp_all

text \<open>When every value already has a node, the loop only increments counters in place.\<close>

lemma count_values_present:
  assumes "distinct (map fst m)" and "set v \<subseteq> fst ` set m"
  shows "count_values link v m =
           map (\<lambda>e. (fst e, snd e + word_of_nat (count_list v (fst e)))) m"
  using assms
proof (induction v arbitrary: m)
  case Nil
  then show ?case by simp
next
  case (Cons x v)
  let ?m = "increment m x"
  have step: "subscript_increment link m x = ?m"
    using Cons.prems(2) by (simp add: subscript_increment_def)
  have "distinct (map fst ?m)" "set v \<subseteq> fst ` set ?m"
    using Cons.prems by (simp_all add: map_fst_increment flip: set_map)
  from Cons.IH [OF this] show ?case
    by (simp add: step increment_map [OF Cons.prems(1)])
qed

subsection \<open>The selection of calculate_mode\<close>

lemma max_element_loop_mem: "max_element_loop cmp l xs \<in> set (l # xs)"
  by (induction xs arbitrary: l) auto

lemma max_element_loop_greatest:
  "\<forall>y \<in> set (l # xs). compareCounts y (max_element_loop compareCounts l xs)"
proof (induction xs arbitrary: l)
  case Nil
  then show ?case by (simp add: compareCounts_def)
next
  case (Cons x xs)
  let ?l = "if compareCounts l x then x else l"
  have "compareCounts l ?l" "compareCounts x ?l"
    by (auto simp: compareCounts_def word_sle_eq)
  moreover have "compareCounts ?l (max_element_loop compareCounts ?l xs)"
    using Cons.IH [of ?l] by simp
  ultimately have "compareCounts l (max_element_loop compareCounts ?l xs)"
    "compareCounts x (max_element_loop compareCounts ?l xs)"
    unfolding compareCounts_def word_sle_eq by linarith+
  with Cons.IH [of ?l] show ?case by simp
qed

lemma max_element_loop_map:
  assumes "\<forall>a \<in> set (l # xs). \<forall>b \<in> set (l # xs). cmp' (h a) (h b) = cmp a b"
  shows "max_element_loop cmp' (h l) (map h xs) = h (max_element_loop cmp l xs)"
  using assms
proof (induction xs arbitrary: l)
  case Nil
  then show ?case by simp
next
  case (Cons x xs)
  let ?l = "if cmp l x then x else l"
  have "\<forall>a \<in> set (?l # xs). \<forall>b \<in> set (?l # xs). cmp' (h a) (h b) = cmp a b"
    using Cons.prems by auto
  from Cons.IH [OF this] have
    "max_element_loop cmp' (h ?l) (map h xs) = h (max_element_loop cmp ?l xs)" .
  moreover have "cmp' (h l) (h x) = cmp l x" using Cons.prems by simp
  ultimately show ?case by (cases "cmp l x") simp_all
qed

lemma sint_counter: "n < 2 ^ 31 \<Longrightarrow> sint (word_of_nat n :: 32 word) = int n"
proof -
  assume "n < 2 ^ 31"
  then have "int n < 2 ^ 31" by (metis of_nat_less_iff of_nat_numeral of_nat_power)
  moreover have "sint (word_of_int (int n) :: 32 word) = signed_take_bit 31 (int n)"
    by (simp only: sint_sbintrunc') simp
  ultimately show ?thesis by (simp add: signed_take_bit_int_eq_self_iff)
qed

text \<open>
  On a non-empty vector the call returns a value: it is the narrowing to \<^verbatim>\<open>int\<close> of a
  key \<open>k\<close> of the vector whose 32-bit counter is not below any other counter.
\<close>

lemma calculate_mode_entry:
  assumes "valid_link link" and "v \<noteq> []"
  shows "\<exists>k \<in> set v.
           (\<forall>y \<in> set v. (word_of_nat (count_list v y) :: int32_t) \<le>s word_of_nat (count_list v k)) \<and>
           calculate_mode link v = Inr (static_cast_int k)"
proof -
  let ?t = "count_values link v []"
  from count_values_nonempty [OF assms] obtain l xs where t: "?t = l # xs"
    by (cases ?t) auto
  let ?e = "max_element_loop compareCounts l xs"
  have res: "calculate_mode link v = Inr (static_cast_int (fst ?e))"
    using assms(2) t by (simp add: calculate_mode_def max_element_def)
  have "?e \<in> set ?t" using max_element_loop_mem [of compareCounts l xs] t by simp
  then have e: "fst ?e \<in> set v" "snd ?e = word_of_nat (count_list v (fst ?e))"
    using count_values_entries [OF assms(1), of v] by auto
  have "(word_of_nat (count_list v y) :: int32_t) \<le>s word_of_nat (count_list v (fst ?e))"
    if "y \<in> set v" for y
  proof -
    have "(y, word_of_nat (count_list v y)) \<in> set (l # xs)"
      using that count_values_entries [OF assms(1), of v] t by auto
    then have "compareCounts (y, word_of_nat (count_list v y)) ?e"
      using max_element_loop_greatest [of l xs] by blast
    then show ?thesis by (simp add: compareCounts_def e(2))
  qed
  with e(1) res show ?thesis by blast
qed

text \<open>
  With fewer than \<open>2 ^ 31\<close> elements no counter overflows, and \<open>k\<close> occurs at least as
  often as every other value.
\<close>

lemma calculate_mode_selects:
  assumes "valid_link link" and "v \<noteq> []" and "length v < 2 ^ 31"
  shows "\<exists>k \<in> set v. (\<forall>y \<in> set v. count_list v y \<le> count_list v k) \<and>
           calculate_mode link v = Inr (static_cast_int k)"
proof -
  from calculate_mode_entry [OF assms(1,2)] obtain k where k: "k \<in> set v"
    "\<forall>y \<in> set v. (word_of_nat (count_list v y) :: int32_t) \<le>s word_of_nat (count_list v k)"
    "calculate_mode link v = Inr (static_cast_int k)"
    by blast
  have "count_list v y \<le> count_list v k" if "y \<in> set v" for y
  proof -
    have "sint (word_of_nat (count_list v y) :: int32_t)
        \<le> sint (word_of_nat (count_list v k) :: int32_t)"
      using k(2) that by (simp add: word_sle_eq)
    moreover have "count_list v y < 2 ^ 31" "count_list v k < 2 ^ 31"
      using assms(3) count_le_length [of v y] count_le_length [of v k] by linarith+
    ultimately show ?thesis by (simp add: sint_counter)
  qed
  with k(1,3) show ?thesis by blast
qed

lemma narrow_sint:
  "sint (to_int64 (static_cast_int k)) = signed_take_bit 31 (sint k)"
proof -
  have "sint (to_int64 (static_cast_int k)) = sint (ucast k :: 32 word)"
    by (simp add: to_int64_def static_cast_int_def sint_up_scast is_up)
  also have "\<dots> = signed_take_bit 31 (take_bit 32 (uint k))"
    by (simp add: sint_uint unsigned_ucast_eq)
  also have "\<dots> = signed_take_bit 31 (uint k)"
    by (simp add: signed_take_bit_take_bit)
  also have "\<dots> = signed_take_bit 31 (sint k)"
    by (simp add: sint_uint)
  finally show ?thesis .
qed

subsection \<open>calculate_mode: results\<close>

text \<open>
  C9: the value that \<open>calculate_mode\<close> returns is an \<^verbatim>\<open>int\<close>: 0 on the empty vector,
  and on a non-empty vector the key \<open>k\<close> that won, narrowed to 32 bits, so that a caller
  reads the signed value of \<open>k\<close> reduced to 32 bits and sign-extended. For the vector
  \<open>[2^31]\<close>, whose only value does not fit in 32 bits, the result read as an
  \<^verbatim>\<open>int64_t\<close> is \<open>- 2^31\<close>, which is not an element of the vector.
\<close>

theorem mode_narrowed_to_int:
  assumes "valid_link link"
  shows "calculate_mode link [] = Inr 0 \<and>
    (v \<noteq> [] \<longrightarrow> (\<exists>k \<in> set v. calculate_mode link v = Inr (static_cast_int k) \<and>
        sint (to_int64 (static_cast_int k)) = signed_take_bit 31 (sint k))) \<and>
    (\<exists>r. calculate_mode link [0x80000000] = Inr r \<and>
        to_int64 r = - 0x80000000 \<and> to_int64 r \<notin> set [0x80000000])"
proof -
  have "calculate_mode link [] = Inr 0" by (simp add: calculate_mode_def)
  moreover have "\<exists>k \<in> set v. calculate_mode link v = Inr (static_cast_int k) \<and>
        sint (to_int64 (static_cast_int k)) = signed_take_bit 31 (sint k)" if "v \<noteq> []"
    using calculate_mode_entry [OF assms that] narrow_sint by blast
  moreover have "\<exists>r. calculate_mode link [0x80000000] = Inr r \<and>
        to_int64 r = - 0x80000000 \<and> to_int64 r \<notin> set [0x80000000]"
    using calculate_mode_entry [OF assms, of "[0x80000000]"]
    by (simp add: static_cast_int_def to_int64_def)
  ultimately show ?thesis by blast
qed

theorem mode_narrowed_to_int_witness:
  "valid_link link_front \<and> [0x80000000] \<noteq> ([] :: int64_t list) \<and>
   calculate_mode link_front [0x80000000] = Inr 0x80000000 \<and>
   to_int64 0x80000000 = - 0x80000000"
  using mode_narrowed_to_int [of link_front "[0x80000000]"] valid_link_front
  by (simp add: static_cast_int_def to_int64_def)

text \<open>
  C2 asks for an element of the vector with a maximal count. On the vector \<open>[2^32]\<close>
  the call returns 0, whatever the container's traversal order, and 0 is not an
  element of the vector. (On the empty vector it returns 0, as the claim says.)
\<close>

theorem mode_not_element:
  assumes "valid_link link"
  shows "calculate_mode link [0x100000000] = Inr 0 \<and>
         to_int64 0 \<notin> set [0x100000000 :: int64_t] \<and>
         calculate_mode link [] = Inr 0"
  using calculate_mode_entry [OF assms, of "[0x100000000]"]
  by (simp add: static_cast_int_def to_int64_def calculate_mode_def)

theorem mode_not_element_witness:
  "valid_link link_front \<and> calculate_mode link_front [0x100000000] = Inr 0 \<and>
   to_int64 0 \<notin> set [0x100000000 :: int64_t]"
  using mode_not_element [of link_front] valid_link_front by simp

text \<open>
  C1 asks for the first value, from left to right, among those with the highest count,
  and in particular that \<open>mode([a, b]) = a\<close> for distinct \<open>a\<close> and \<open>b\<close>. On
  \<open>[2^32, 1]\<close> the call returns an \<^verbatim>\<open>int\<close> that, read as an \<^verbatim>\<open>int64_t\<close>, is not
  \<open>2^32\<close>, whatever the container's traversal order.
\<close>

theorem mode_tie_break_narrowed:
  assumes "valid_link link"
  shows "\<exists>r. calculate_mode link [0x100000000, 1] = Inr r \<and> to_int64 r \<noteq> 0x100000000"
proof -
  from calculate_mode_entry [OF assms, of "[0x100000000, 1]"]
  have "calculate_mode link [0x100000000, 1] = Inr (static_cast_int 0x100000000) \<or>
        calculate_mode link [0x100000000, 1] = Inr (static_cast_int 1)"
    by auto
  then show ?thesis
    by (auto simp: static_cast_int_def to_int64_def)
qed

theorem mode_tie_break_narrowed_witness:
  "valid_link link_front \<and> calculate_mode link_front [0x100000000, 1] = Inr 0"
  using mode_tie_break_narrowed [of link_front] valid_link_front
  by (simp add: calculate_mode_def subscript_increment_def link_front_def max_element_def
      compareCounts_def static_cast_int_def word_sle_eq)

text \<open>
  Which of two tied values wins depends on the order in which the container is
  traversed: the comparison is \<^verbatim>\<open><=\<close>, so a later node with the same counter replaces
  the current best.
\<close>

lemma mode_tie_break_by_traversal:
  "calculate_mode link_front [1, 2] = Inr 1 \<and> calculate_mode link_back [1, 2] = Inr 2"
  by (simp add: calculate_mode_def subscript_increment_def link_front_def link_back_def
      max_element_def compareCounts_def static_cast_int_def word_sle_eq)

subsection \<open>calculate_mode: the tie-break with nodes linked at the head\<close>

lemma count_values_snoc:
  "count_values link (v @ [x]) m = subscript_increment link (count_values link v m) x"
  by (simp add: count_values_append)

text \<open>
  With every new node linked at the head, the traversal visits the keys in the reverse
  of the order of their first occurrences in the vector.
\<close>

lemma keys_link_front: "map fst (count_values link_front v []) = remdups (rev v)"
proof (induction v rule: rev_induct)
  case Nil
  then show ?case by simp
next
  case (snoc x v)
  let ?t = "count_values link_front v []"
  have keys: "fst ` set ?t = set v"
    using count_values_inv [OF valid_link_front, of "[]" v] by simp
  have front: "link_front ?t x = (x, 0) # ?t" by (simp add: link_front_def)
  show ?case
  proof (cases "x \<in> set v")
    case True
    then have "subscript_increment link_front ?t x = increment ?t x"
      using keys by (simp add: subscript_increment_def)
    with True snoc show ?thesis
      by (simp add: count_values_snoc map_fst_increment)
  next
    case False
    then have "subscript_increment link_front ?t x = increment ((x, 0) # ?t) x"
      using keys front by (simp add: subscript_increment_def)
    with False snoc show ?thesis
      by (simp add: count_values_snoc)
  qed
qed

text \<open>
  The loop of \<open>max_element\<close> returns an element that no later element of the range
  replaces: with \<^verbatim>\<open><=\<close>, every later element has a strictly smaller counter.
\<close>

lemma max_element_loop_last:
  "\<exists>pre post. xs = pre @ post \<and> max_element_loop cmp l xs = last (l # pre) \<and>
     (\<forall>y \<in> set post. \<not> cmp (max_element_loop cmp l xs) y)"
proof (induction xs arbitrary: l)
  case Nil
  then show ?case by simp
next
  case (Cons x xs)
  let ?l = "if cmp l x then x else l"
  let ?e = "max_element_loop cmp ?l xs"
  from Cons.IH [of ?l] obtain pre post where
    p: "xs = pre @ post" "?e = last (?l # pre)" "\<forall>y \<in> set post. \<not> cmp ?e y"
    by blast
  show ?case
  proof (cases "cmp l x \<or> pre \<noteq> []")
    case True
    then have "?e = last (l # x # pre)" using p(2) by auto
    with p(1,3) show ?thesis
      by (intro exI [of _ "x # pre"] exI [of _ post]) simp
  next
    case False
    then have "?e = l" "\<not> cmp l x" "pre = []" using p(2) by auto
    with p(1,3) show ?thesis
      by (intro exI [of _ "[]"] exI [of _ "x # post"]) simp
  qed
qed

lemma first_occurrence_order:
  assumes "k \<notin> set p" and "remdups (rev (p @ k # s)) = A @ k # B"
  shows "set p \<subseteq> set B"
  using assms(2)
proof (induction s arbitrary: A rule: rev_induct)
  case Nil
  then have eq: "k # remdups (rev p) = A @ k # B" using assms(1) by simp
  have "A = []"
  proof (cases A)
    case Nil
    then show ?thesis .
  next
    case (Cons a A')
    with eq have "remdups (rev p) = A' @ k # B" by simp
    then have "k \<in> set (remdups (rev p))" by simp
    with assms(1) show ?thesis by simp
  qed
  with eq have "B = remdups (rev p)" by simp
  then show ?case by simp
next
  case (snoc x s)
  let ?L = "rev (p @ k # s)"
  have k: "k \<in> set ?L" by simp
  show ?case
  proof (cases "x \<in> set ?L")
    case True
    then have "remdups ?L = A @ k # B" using snoc.prems by simp
    then show ?thesis by (rule snoc.IH)
  next
    case False
    then have eq: "x # remdups ?L = A @ k # B" using snoc.prems by simp
    have "x \<noteq> k" using False k by blast
    with eq obtain A' where "A = x # A'" by (cases A) auto
    with eq have "remdups ?L = A' @ k # B" by simp
    then show ?thesis by (rule snoc.IH)
  qed
qed

text \<open>
  With nodes linked at the head and fewer than \<open>2 ^ 31\<close> elements, the key \<open>k\<close> that
  is selected is the first value of the vector, from left to right, among those with the
  highest count: every value has at most the count of \<open>k\<close>, and every value before the
  first occurrence of \<open>k\<close> has a strictly smaller one. What is returned is \<open>k\<close> narrowed
  to \<^verbatim>\<open>int\<close>.
\<close>

lemma calculate_mode_front_first:
  assumes "v \<noteq> []" and "length v < 2 ^ 31"
  shows "\<exists>p k s. v = p @ k # s \<and> k \<notin> set p \<and>
           (\<forall>y \<in> set p. count_list v y < count_list v k) \<and>
           (\<forall>y \<in> set v. count_list v y \<le> count_list v k) \<and>
           calculate_mode link_front v = Inr (static_cast_int k)"
proof -
  let ?t = "count_values link_front v []"
  note ent = count_values_entries [OF valid_link_front, of v]
  from count_values_nonempty [OF valid_link_front assms(1)] obtain l xs where t: "?t = l # xs"
    by (cases ?t) auto
  let ?e = "max_element_loop compareCounts l xs"
  from max_element_loop_last [of xs compareCounts l] obtain pre post where
    pp: "xs = pre @ post" "?e = last (l # pre)" "\<forall>y \<in> set post. \<not> compareCounts ?e y"
    by blast
  have res: "calculate_mode link_front v = Inr (static_cast_int (fst ?e))"
    using assms(1) t by (simp add: calculate_mode_def max_element_def)
  have "?e \<in> set ?t" using max_element_loop_mem [of compareCounts l xs] t by simp
  then have e: "fst ?e \<in> set v" "snd ?e = word_of_nat (count_list v (fst ?e))"
    using ent by auto
  have small: "count_list v y < 2 ^ 31" for y
    using assms(2) count_le_length [of v y] by linarith
  have le: "count_list v y \<le> count_list v (fst ?e)" if "y \<in> set v" for y
  proof -
    have "(y, word_of_nat (count_list v y)) \<in> set (l # xs)"
      using that ent t by auto
    then have "compareCounts (y, word_of_nat (count_list v y)) ?e"
      using max_element_loop_greatest [of l xs] by blast
    then show ?thesis
      using small by (simp add: compareCounts_def e(2) word_sle_eq sint_counter)
  qed
  from e(1) obtain p s where v: "v = p @ fst ?e # s" "fst ?e \<notin> set p"
    by (meson split_list_first)
  have "l # pre = butlast (l # pre) @ [?e]"
    using pp(2) by (metis append_butlast_last_id list.distinct(1))
  then have "?t = butlast (l # pre) @ ?e # post"
    using t pp(1) by (metis append_Cons append_Nil append_assoc)
  then have "map fst ?t = map fst (butlast (l # pre)) @ fst ?e # map fst post"
    by simp
  then have "remdups (rev (p @ fst ?e # s)) =
      map fst (butlast (l # pre)) @ fst ?e # map fst post"
    using keys_link_front [of v] v(1) by simp
  from first_occurrence_order [OF v(2) this] have sub: "set p \<subseteq> fst ` set post" by simp
  have lt: "count_list v y < count_list v (fst ?e)" if "y \<in> set p" for y
  proof -
    from that sub obtain c where c: "(y, c) \<in> set post" by force
    then have "(y, c) \<in> set ?t" using t pp(1) by simp
    then have "c = word_of_nat (count_list v y)" using ent by auto
    moreover have "\<not> compareCounts ?e (y, c)" using pp(3) c by blast
    ultimately show ?thesis
      using small by (simp add: compareCounts_def e(2) word_sle_eq sint_counter)
  qed
  from v le lt res show ?thesis by blast
qed

lemma mode_pair_front:
  "a \<noteq> b \<Longrightarrow> calculate_mode link_front [a, b] = Inr (static_cast_int a)"
  by (simp add: calculate_mode_def subscript_increment_def link_front_def max_element_def
      compareCounts_def)

subsection \<open>calculate_mode: repeating the vector\<close>

lemma count_list_replicate: "count_list (replicate n a) x = (if x = a then n else 0)"
  by (induction n) auto

text \<open>
  A vector of \<open>2^30\<close> copies of 7 followed by a 9 has mode 7. Repeated, it holds
  \<open>2^31\<close> copies of 7, the \<^verbatim>\<open>int\<close> counter of 7 wraps to \<open>- 2^31\<close>, and the mode is 9.
  This does not depend on the traversal order.
\<close>

lemma mode_repeat_overflow:
  assumes "valid_link link"
  shows "calculate_mode link (replicate (2 ^ 30) 7 @ [9]) = Inr 7 \<and>
   calculate_mode link ((replicate (2 ^ 30) 7 @ [9]) @ (replicate (2 ^ 30) 7 @ [9])) = Inr 9"
proof -
  let ?v = "replicate (2 ^ 30) 7 @ [9] :: int64_t list"
  have c: "count_list ?v 7 = 2 ^ 30" "count_list ?v 9 = 1"
    by (simp_all add: count_list_replicate)
  have s: "set ?v = {7, 9}" by auto
  have w1: "(word_of_nat (2 ^ 30) :: int32_t) = 0x40000000" by simp
  have w2: "(word_of_nat (2 ^ 30 + 2 ^ 30) :: int32_t) = 0x80000000" by simp
  from calculate_mode_entry [OF assms, of ?v] obtain k where k: "k \<in> set ?v"
    "\<forall>y \<in> set ?v. (word_of_nat (count_list ?v y) :: int32_t) \<le>s word_of_nat (count_list ?v k)"
    "calculate_mode link ?v = Inr (static_cast_int k)"
    by blast
  have "k \<noteq> 9"
  proof
    assume "k = 9"
    with k(2) have "(word_of_nat (count_list ?v 7) :: int32_t) \<le>s word_of_nat (count_list ?v 9)"
      unfolding s by blast
    then show False unfolding c w1 by (simp add: word_sle_eq)
  qed
  with k(1) have "k = 7" unfolding s by blast
  with k(3) have one: "calculate_mode link ?v = Inr 7" by (simp add: static_cast_int_def)
  from calculate_mode_entry [OF assms, of "?v @ ?v"] obtain k' where k': "k' \<in> set (?v @ ?v)"
    "\<forall>y \<in> set (?v @ ?v). (word_of_nat (count_list (?v @ ?v) y) :: int32_t)
        \<le>s word_of_nat (count_list (?v @ ?v) k')"
    "calculate_mode link (?v @ ?v) = Inr (static_cast_int k')"
    by blast
  have s': "set (?v @ ?v) = {7, 9}" by auto
  have c': "count_list (?v @ ?v) 7 = 2 ^ 30 + 2 ^ 30" "count_list (?v @ ?v) 9 = 2"
    by (simp_all add: count_list_replicate)
  have "k' \<noteq> 7"
  proof
    assume "k' = 7"
    with k'(2) have "(word_of_nat (count_list (?v @ ?v) 9) :: int32_t)
        \<le>s word_of_nat (count_list (?v @ ?v) 7)"
      unfolding s' by blast
    then show False unfolding c' w2 by (simp add: word_sle_eq)
  qed
  with k'(1) have "k' = 9" unfolding s' by blast
  with k'(3) have two: "calculate_mode link (?v @ ?v) = Inr 9" by (simp add: static_cast_int_def)
  from one two show ?thesis ..
qed

text \<open>
  C8, as stated, fails: for the vector \<open>v\<close> of \<open>2^30\<close> copies of 7 followed by a 9,
  which has \<open>2^30 + 1\<close> elements, the mode of \<open>v\<close> is 7 and the mode of \<open>v\<close>
  concatenated with itself is 9.
\<close>

theorem mode_repeat_counterexample:
  "calculate_mode link_front (replicate (2 ^ 30) 7 @ [9]) = Inr 7 \<and>
   calculate_mode link_front ((replicate (2 ^ 30) 7 @ [9]) @ (replicate (2 ^ 30) 7 @ [9])) = Inr 9"
  using valid_link_front by (rule mode_repeat_overflow)

lemma count_list_two: "a \<noteq> b \<Longrightarrow> count_list v a + count_list v b \<le> length v"
  by (induction v) auto

text \<open>
  C8, amended: for every vector \<open>v\<close> of at most \<open>2^30\<close> elements, the mode of \<open>v\<close>
  concatenated with itself is the mode of \<open>v\<close>, whatever the container's traversal order.
  The second pass over \<open>v\<close> finds a node for every value, so the nodes keep their order
  and every counter doubles; two counters that are compared belong to different keys,
  so each is below \<open>2^30\<close> and its double does not overflow.
\<close>

theorem mode_repeat:
  assumes "valid_link link" and "length v \<le> 2 ^ 30"
  shows "calculate_mode link (v @ v) = calculate_mode link v"
proof (cases "v = []")
  case True
  then show ?thesis by simp
next
  case False
  let ?t = "count_values link v []"
  let ?h = "\<lambda>e :: int64_t \<times> int32_t. (fst e, snd e + snd e)"
  have inv: "distinct (map fst ?t)" "fst ` set ?t = set v"
    using count_values_inv [OF assms(1), of "[]" v] by simp_all
  have ent: "snd e = word_of_nat (count_list v (fst e))" if "e \<in> set ?t" for e
    using that count_values_entries [OF assms(1), of v] by auto
  have "count_values link (v @ v) [] =
          map (\<lambda>e. (fst e, snd e + word_of_nat (count_list v (fst e)))) ?t"
    using inv by (simp add: count_values_append count_values_present)
  also have "\<dots> = map ?h ?t"
    by (rule map_cong) (simp_all add: ent)
  finally have twice: "count_values link (v @ v) [] = map ?h ?t" .
  from count_values_nonempty [OF assms(1) False] obtain l xs where t: "?t = l # xs"
    by (cases ?t) auto
  have double: "sint (snd (?h a)) = 2 * sint (snd a)"
    if "a \<in> set ?t" and "b \<in> set ?t" and "a \<noteq> b" for a b
  proof -
    have "fst a \<noteq> fst b"
      using that ent [of a] ent [of b] by (metis prod.expand)
    then have "count_list v (fst a) + count_list v (fst b) \<le> length v"
      by (rule count_list_two)
    moreover have "fst b \<in> set v" using that(2) inv(2) by force
    then have "0 < count_list v (fst b)" using count_list_0_iff [of v "fst b"] by simp
    ultimately have "count_list v (fst a) < 2 ^ 30" using assms(2) by linarith
    then have "count_list v (fst a) + count_list v (fst a) < 2 ^ 31"
      "count_list v (fst a) < 2 ^ 31"
      by simp_all
    then have "sint (word_of_nat (count_list v (fst a) + count_list v (fst a)) :: 32 word)
        = 2 * sint (word_of_nat (count_list v (fst a)) :: 32 word)"
      by (simp only: sint_counter)
    then show ?thesis by (simp add: ent [OF that(1)])
  qed
  have "compareCounts (?h a) (?h b) = compareCounts a b"
    if "a \<in> set ?t" and "b \<in> set ?t" for a b
  proof (cases "a = b")
    case True
    then show ?thesis by (simp add: compareCounts_def)
  next
    case False
    with double [OF that False] double [OF that(2,1)] show ?thesis
      unfolding compareCounts_def word_sle_eq by simp
  qed
  then have "\<forall>a \<in> set (l # xs). \<forall>b \<in> set (l # xs).
      compareCounts (?h a) (?h b) = compareCounts a b"
    using t by simp
  from max_element_loop_map [of l xs compareCounts ?h compareCounts, OF this]
  show ?thesis using False t twice
    by (simp add: calculate_mode_def max_element_def)
qed

theorem mode_repeat_witness:
  "valid_link link_front \<and> length [5, 5, 7, 7, 9 :: int64_t] \<le> 2 ^ 30 \<and>
   calculate_mode link_front ([5, 5, 7, 7, 9] @ [5, 5, 7, 7, 9]) = Inr 5 \<and>
   calculate_mode link_front [5, 5, 7, 7, 9] = Inr 5"
  using mode_repeat [of link_front "[5, 5, 7, 7, 9]"] valid_link_front
  by (simp add: calculate_mode_def subscript_increment_def link_front_def max_element_def
      compareCounts_def static_cast_int_def word_sle_eq)

subsection \<open>The caller's vector\<close>

text \<open>
  The loops over the positions of the vector compute what the loops over its elements
  compute, and hand the memory on as they found it.
\<close>

lemma accumulate_over_reads:
  "accumulate_over positions init mem = (accumulate (map ((!) mem) positions) init, mem)"
  by (induction positions arbitrary: init) (simp_all add: read_at_def)

lemma count_values_over_reads:
  "count_values_over link positions counts mem =
     (count_values link (map ((!) mem) positions) counts, mem)"
  by (induction positions arbitrary: counts) (simp_all add: read_at_def)

lemma call_calculate_mean_eq: "call_calculate_mean v = (calculate_mean v, v)"
  by (simp add: call_calculate_mean_def accumulate_over_reads map_nth calculate_mean_def)

lemma call_calculate_mode_eq: "call_calculate_mode link v = (calculate_mode link v, v)"
  by (simp add: call_calculate_mode_def count_values_over_reads map_nth calculate_mode_def)

text \<open>
  C6: a call of \<open>calculate_mean\<close> or of \<open>calculate_mode\<close> leaves the caller's vector as
  it was, for every vector. (\<open>calculate_median\<close> is the one that reorders it: see
  \<open>calculate_median_reorders\<close>.)
\<close>

theorem mean_mode_frame:
  "snd (call_calculate_mean v) = v \<and> snd (call_calculate_mode link v) = v"
  by (simp add: call_calculate_mean_eq call_calculate_mode_eq)

lemma calculate_median_reorders: "snd (calculate_median [3, 1, 2]) = [1, 2, 3]"
  by (simp add: calculate_median_def word_sless_alt)

end
